theory Spec2Isabelle
  imports Main "HOL-Library.Sublist"
begin

section \<open>Python strings\<close>

text \<open>
  A Python \<open>str\<close> is a sequence of Unicode code points, and \<open>len\<close>, slicing,
  \<open>replace\<close>, \<open>re.split\<close>, \<open>strip\<close> and \<open>split\<close> all count and compare code
  points. The typographic quotation marks of the notebook (U+201C, U+201D) lie outside
  the 8-bit \<open>char\<close> of HOL, so a string is modelled as a list of code points, each a
  natural number. \<open>of_ascii\<close> turns an ASCII literal into such a list.
\<close>

type_synonym codepoint = nat
type_synonym str = "codepoint list"

definition of_ascii :: "string \<Rightarrow> str" where
  "of_ascii s = map of_char s"

subsection \<open>\<open>str.replace\<close> and the \<open>in\<close> test\<close>

text \<open>
  \<open>s.replace(old, new)\<close> scans \<open>s\<close> from the left; at each position where \<open>old\<close>
  starts it emits \<open>new\<close> and continues behind the occurrence (occurrences do not overlap),
  otherwise it copies one code point. With an empty \<open>old\<close> Python puts \<open>new\<close> in front of
  every code point and at the end.
\<close>

function str_replace :: "str \<Rightarrow> str \<Rightarrow> str \<Rightarrow> str" where
  "str_replace s old new =
     (if old = [] then new @ concat (map (\<lambda>c. c # new) s)
      else if s = [] then []
      else if prefix old s then new @ str_replace (drop (length old) s) old new
      else hd s # str_replace (tl s) old new)"
  by pat_completeness auto
termination
  by (relation "measure (\<lambda>(s, old, new). length s)") auto

declare str_replace.simps [simp del]

text \<open>\<open>old in s\<close>: the string \<open>old\<close> occurs somewhere in \<open>s\<close>.\<close>

fun str_contains :: "str \<Rightarrow> str \<Rightarrow> bool" where
  "str_contains [] old = (old = [])"
| "str_contains (c # cs) old = (prefix old (c # cs) \<or> str_contains cs old)"

subsection \<open>\<open>re.split\<close> with the pattern \<open>[.?!]\<close>\<close>

text \<open>
  The pattern is a character class matching exactly one of \<open>.\<close>, \<open>?\<close>, \<open>!\<close>. Every
  match is one code point long, so \<open>re.split\<close> cuts the text at every such code point,
  drops the delimiter and keeps every piece, the empty ones too.
\<close>

definition sent_boundary_pattern :: "codepoint \<Rightarrow> bool" where
  "sent_boundary_pattern c \<longleftrightarrow> c = 46 \<or> c = 63 \<or> c = 33"

fun re_split_from :: "str \<Rightarrow> str \<Rightarrow> str list" where
  "re_split_from cur [] = [cur]"
| "re_split_from cur (c # cs) =
     (if sent_boundary_pattern c then cur # re_split_from [] cs
      else re_split_from (cur @ [c]) cs)"

definition re_split :: "str \<Rightarrow> str list" where
  "re_split text = re_split_from [] text"

subsection \<open>\<open>string.punctuation\<close> and the notebook's \<open>special\<close>\<close>

text \<open>
  \<open>string.punctuation\<close> is the 32 ASCII punctuation marks
  \<^verbatim>\<open>!"#$%&'()*+,-./:;<=>?@[\]^_`{|}~\<close>; \<open>special\<close> is the list of the two typographic
  double quotation marks U+201C and U+201D.
\<close>

definition punctuation :: str where
  "punctuation = [33, 34, 35, 36, 37, 38, 39, 40, 41, 42, 43, 44, 45, 46, 47,
                  58, 59, 60, 61, 62, 63, 64, 91, 92, 93, 94, 95, 96, 123, 124, 125, 126]"

definition special :: str where
  "special = [8220, 8221]"

subsection \<open>\<open>str.lower\<close>\<close>

text \<open>
  \<open>str.lower\<close> maps every code point through the full lowercase mapping of the Unicode
  character database, except for the capital sigma U+03A3, which becomes the final sigma
  U+03C2 when it is preceded by a cased letter and not followed by one (case-ignorable
  code points skipped on both sides) and the small sigma U+03C3 otherwise.

  The database is not part of the notebook. Its ASCII part (\<open>A\<close>..\<open>Z\<close> to \<open>a\<close>..\<open>z\<close>,
  everything else fixed) is written out; the rest is a parameter: the lowercase mapping
  of the code points from 128 on and the two properties Cased and Case_Ignorable.
\<close>

record ucd =
  to_lower_full :: "codepoint \<Rightarrow> str"
  is_cased :: "codepoint \<Rightarrow> bool"
  is_case_ignorable :: "codepoint \<Rightarrow> bool"

definition ascii_lower :: "codepoint \<Rightarrow> codepoint" where
  "ascii_lower c = (if 65 \<le> c \<and> c \<le> 90 then c + 32 else c)"

definition lower_full :: "ucd \<Rightarrow> codepoint \<Rightarrow> str" where
  "lower_full db c = (if c < 128 then [ascii_lower c] else to_lower_full db c)"

text \<open>
  \<open>lhs\<close> holds the code points to the left of the sigma, nearest first; \<open>rhs\<close>
  those to its right.
\<close>

definition handle_capital_sigma :: "ucd \<Rightarrow> str \<Rightarrow> str \<Rightarrow> codepoint" where
  "handle_capital_sigma db lhs rhs =
     (let b = dropWhile (is_case_ignorable db) lhs;
          a = dropWhile (is_case_ignorable db) rhs;
          final_sigma = (b \<noteq> [] \<and> is_cased db (hd b)) \<and> (a = [] \<or> \<not> is_cased db (hd a))
      in if final_sigma then 962 else 963)"

fun lower_from :: "ucd \<Rightarrow> str \<Rightarrow> str \<Rightarrow> str" where
  "lower_from db lhs [] = []"
| "lower_from db lhs (c # cs) =
     (if c = 931 then [handle_capital_sigma db lhs cs] else lower_full db c)
     @ lower_from db (c # lhs) cs"

definition str_lower :: "ucd \<Rightarrow> str \<Rightarrow> str" where
  "str_lower db s = lower_from db [] s"

subsection \<open>\<open>str.strip\<close>, \<open>str.split\<close> and \<open>str.join\<close>\<close>

text \<open>
  Without arguments \<open>strip\<close> and \<open>split\<close> work on Unicode whitespace, the code points
  for which \<open>isspace\<close> holds: U+0009..U+000D, U+001C..U+0020, U+0085, U+00A0, U+1680,
  U+2000..U+200A, U+2028, U+2029, U+202F, U+205F and U+3000.
\<close>

definition isspace :: "codepoint \<Rightarrow> bool" where
  "isspace c \<longleftrightarrow>
     (9 \<le> c \<and> c \<le> 13) \<or> (28 \<le> c \<and> c \<le> 32) \<or> c = 133 \<or> c = 160 \<or> c = 5760 \<or>
     (8192 \<le> c \<and> c \<le> 8202) \<or> c = 8232 \<or> c = 8233 \<or> c = 8239 \<or> c = 8287 \<or> c = 12288"

definition strip :: "str \<Rightarrow> str" where
  "strip s = rev (dropWhile isspace (rev (dropWhile isspace s)))"

text \<open>
  \<open>s.split()\<close> skips a run of whitespace, takes the following run of other code points
  as a token, and repeats until the string is used up.
\<close>

function split :: "str \<Rightarrow> str list" where
  "split s =
     (let rest = dropWhile isspace s
      in if rest = [] then []
         else takeWhile (\<lambda>c. \<not> isspace c) rest # split (dropWhile (\<lambda>c. \<not> isspace c) rest))"
  by pat_completeness auto
termination
proof (relation "measure length")
  fix s rest :: str
  assume r: "rest = dropWhile isspace s" and ne: "rest \<noteq> []"
  from r ne have "\<not> isspace (hd rest)"
    using hd_dropWhile by metis
  with ne obtain c cs where rest: "rest = c # cs" and c: "\<not> isspace c"
    by (cases rest) auto
  have "length (dropWhile (\<lambda>c. \<not> isspace c) rest) \<le> length cs"
    using rest c by (simp add: length_dropWhile_le)
  also have "\<dots> < length rest"
    using rest by simp
  also have "\<dots> \<le> length s"
    using r by (simp add: length_dropWhile_le)
  finally show "(dropWhile (\<lambda>c. \<not> isspace c) rest, s) \<in> measure length"
    by simp
qed simp

declare split.simps [simp del]

fun join :: "str \<Rightarrow> str list \<Rightarrow> str" where
  "join sep [] = []"
| "join sep [x] = x"
| "join sep (x # y # ys) = x @ sep @ join sep (y # ys)"

section \<open>The notebook\<close>

subsection \<open>Reading the corpus\<close>

text \<open>
  The first cell globs \<open>data/harper/*.txt\<close> and appends the decoded text of every file
  found to \<open>raw\<close>, which starts empty. The file system is the input of the model: the
  list of the decoded contents of the files the glob returned, in its order.
\<close>

definition read_corpus :: "str list \<Rightarrow> str" where
  "read_corpus contents = fold (\<lambda>t raw. raw @ t) contents []"

subsection \<open>Quick pre-processing\<close>

text \<open>
  The cell first drops the header, \<open>text = raw[1114:]\<close>, and then works on \<open>text\<close>
  alone. \<open>tokenize_text\<close> is the cell from its second statement on; \<open>list_of_list\<close>
  is the whole cell.
\<close>

definition header_skip :: nat where
  "header_skip = 1114"

definition abbreviations :: "str \<Rightarrow> str" where
  "abbreviations text =
     str_replace (str_replace text (of_ascii ''Mrs.'') (of_ascii ''Mrs''))
       (of_ascii ''Mr.'') (of_ascii ''Mr'')"

definition line_breaks :: "str \<Rightarrow> str" where
  "line_breaks text = str_replace (str_replace text [10] [32]) [13] [32]"

definition remove_punctuation :: "str \<Rightarrow> str" where
  "remove_punctuation sent = filter (\<lambda>ch. ch \<notin> set punctuation \<and> ch \<notin> set special) sent"

definition tokenize_text :: "ucd \<Rightarrow> str \<Rightarrow> str list list" where
  "tokenize_text db text =
     (let text = abbreviations text;
          text = line_breaks text;
          sentences = re_split text;
          sentences = map remove_punctuation sentences;
          sentences = map (str_lower db) sentences;
          sentences = map strip sentences
      in map split sentences)"

definition list_of_list :: "ucd \<Rightarrow> str \<Rightarrow> str list list" where
  "list_of_list db raw = tokenize_text db (drop header_skip raw)"

subsection \<open>A small character database\<close>

text \<open>
  To run the model on concrete texts: a database that knows the Latin-1 letters only.
  It lowers U+00C0..U+00DE (the multiplication sign U+00D7 apart), maps the capital
  sigma to the small one and fixes every other code point.
\<close>

definition latin1_letter :: "codepoint \<Rightarrow> bool" where
  "latin1_letter c \<longleftrightarrow>
     (65 \<le> c \<and> c \<le> 90) \<or> (97 \<le> c \<and> c \<le> 122) \<or> c = 170 \<or> c = 181 \<or> c = 186 \<or>
     (192 \<le> c \<and> c \<le> 255 \<and> c \<noteq> 215 \<and> c \<noteq> 247)"

definition latin1_ucd :: ucd where
  "latin1_ucd = \<lparr>
     to_lower_full = (\<lambda>c. if 192 \<le> c \<and> c \<le> 222 \<and> c \<noteq> 215 then [c + 32]
                          else if c = 931 then [963] else [c]),
     is_cased = (\<lambda>c. latin1_letter c \<or> c = 931 \<or> c = 962 \<or> c = 963),
     is_case_ignorable = (\<lambda>c. c \<in> {39, 46, 58, 94, 96, 168, 173, 175, 180, 183, 184}) \<rparr>"

subsection \<open>Measures used by the properties\<close>

text \<open>
  The number of sentence delimiters of a text, and whether two delimiters stand side by
  side in it.
\<close>

definition count_boundaries :: "str \<Rightarrow> nat" where
  "count_boundaries s = length (filter sent_boundary_pattern s)"

fun adjacent_boundaries :: "str \<Rightarrow> bool" where
  "adjacent_boundaries (a # b # cs) =
     ((sent_boundary_pattern a \<and> sent_boundary_pattern b) \<or> adjacent_boundaries (b # cs))"
| "adjacent_boundaries cs = False"

text \<open>
  A code point is fixed by lowercasing when it is not the capital sigma and its lowercase
  mapping is itself. What the properties of the tokens need of the character database:
  the lowercase mapping of a code point that the filter lets through (the capital sigma
  is handled apart) consists of code points that are fixed by lowercasing and belong
  neither to \<open>string.punctuation\<close> nor to \<open>special\<close>, and the two small sigmas are
  mapped to themselves. The Unicode character database has these properties; the ASCII
  part of the mapping, which is written out above, is proved to have them below.
\<close>

definition lower_fixed :: "ucd \<Rightarrow> codepoint \<Rightarrow> bool" where
  "lower_fixed db d \<longleftrightarrow> d \<noteq> 931 \<and> lower_full db d = [d]"

definition case_table_ok :: "ucd \<Rightarrow> bool" where
  "case_table_ok db \<longleftrightarrow>
     (\<forall>c. 128 \<le> c \<and> c \<noteq> 931 \<and> c \<notin> set special \<longrightarrow>
        (\<forall>d \<in> set (to_lower_full db c).
           lower_fixed db d \<and> d \<notin> set punctuation \<and> d \<notin> set special)) \<and>
     to_lower_full db 962 = [962] \<and> to_lower_full db 963 = [963]"

section \<open>Running the model\<close>

text \<open>
  The equations that unfold the model on a concrete text. Two of them are recursive
  without a pattern (\<open>str_replace\<close>, \<open>split\<close>), so they are used on closed terms only.
\<close>

lemmas run_defs =
  tokenize_text_def abbreviations_def line_breaks_def of_ascii_def str_replace.simps
  re_split_def sent_boundary_pattern_def remove_punctuation_def punctuation_def special_def
  str_lower_def lower_full_def ascii_lower_def strip_def isspace_def split.simps

lemma tokenize_text_empty: "tokenize_text db [] = [[]]"
  by (simp add: run_defs)

lemma re_split_from_nonempty: "re_split_from cur s \<noteq> []"
  by (induction s arbitrary: cur) simp_all

lemma tokenize_text_nonempty: "tokenize_text db text \<noteq> []"
  by (simp add: tokenize_text_def re_split_def re_split_from_nonempty)

lemma drop_header_short: "length raw \<le> 1114 \<Longrightarrow> drop header_skip raw = []"
  by (simp add: header_skip_def)

lemma drop_header_padded: "drop header_skip (replicate 1114 c @ text) = text"
  by (simp add: header_skip_def)

section \<open>The end-to-end example\<close>

text \<open>
  Claim C1. With the header offset 0 the slice \<open>raw[0:]\<close> is the whole string, so the
  cell is \<open>tokenize_text\<close> applied to the raw text. On
  \<open>Mrs. Jones met Mr. Smith. They talked!\<close> it yields the three sentences
  \<open>mrs jones met mr smith\<close>, \<open>they talked\<close> and a last, empty one (the text ends with
  a delimiter), whatever the character database says beyond ASCII.
\<close>

theorem end_to_end_example:
  "tokenize_text db (of_ascii ''Mrs. Jones met Mr. Smith. They talked!'') =
     [map of_ascii [''mrs'', ''jones'', ''met'', ''mr'', ''smith''],
      map of_ascii [''they'', ''talked''],
      []]"
  by (simp add: run_defs)

text \<open>
  The intermediate values of the example: the text after abbreviation normalization and
  the pieces \<open>re.split\<close> cuts it into.
\<close>

lemma end_to_end_stages:
  "abbreviations (of_ascii ''Mrs. Jones met Mr. Smith. They talked!'') =
     of_ascii ''Mrs Jones met Mr Smith. They talked!'' \<and>
   re_split (line_breaks (of_ascii ''Mrs Jones met Mr Smith. They talked!'')) =
     [of_ascii ''Mrs Jones met Mr Smith'', of_ascii '' They talked'', []]"
  by (simp add: run_defs)

text \<open>
  The notebook itself skips 1114 code points: the same sentences come out when the text
  follows a header of that length.
\<close>

lemma end_to_end_after_header:
  "list_of_list db (replicate 1114 120 @ of_ascii ''Mrs. Jones met Mr. Smith. They talked!'') =
     [map of_ascii [''mrs'', ''jones'', ''met'', ''mr'', ''smith''],
      map of_ascii [''they'', ''talked''],
      []]"
  unfolding list_of_list_def drop_header_padded by (simp add: run_defs)

section \<open>The empty text\<close>

text \<open>
  Claim C2, as stated: the normalizer is total and the empty string yields the empty
  sequence of sentences. Every function of the model is defined by terminating recursion
  and the cell has no statement that can raise on a string, so the first half holds; but
  \<open>re.split\<close> returns one (empty) piece for the empty text, and the cell turns it into one
  empty sentence.
\<close>

theorem empty_text_counterexample: "list_of_list latin1_ucd [] \<noteq> []"
  by (simp add: list_of_list_def tokenize_text_empty)

text \<open>
  Claim C2, amended: on the empty string the normalizer returns the sequence that holds
  exactly one empty sentence, with or without the header skip, and on no input does it
  return the empty sequence.
\<close>

theorem empty_text_one_sentence:
  "tokenize_text db [] = [[]] \<and> list_of_list db [] = [[]] \<and> list_of_list db raw \<noteq> []"
  by (simp add: list_of_list_def tokenize_text_empty tokenize_text_nonempty)

section \<open>The empty data directory\<close>

text \<open>
  Claim C7, as stated: with no file matching the glob the corpus read is the empty string
  and the tokenized corpus is an empty sequence. The first half holds, the second fails as
  for claim C2: the tokenized corpus has one sentence.
\<close>

theorem empty_directory_counterexample: "list_of_list latin1_ucd (read_corpus []) \<noteq> []"
  by (simp add: read_corpus_def list_of_list_def tokenize_text_empty)

text \<open>
  Claim C7, amended: with no file matching the glob the corpus read is the empty string,
  and the cell turns it into a corpus of exactly one empty sentence; nothing is raised on
  the way (the result is a value of the model, which has no error branch).
\<close>

theorem empty_directory_one_sentence:
  "read_corpus [] = [] \<and> list_of_list db (read_corpus []) = [[]]"
  by (simp add: read_corpus_def list_of_list_def tokenize_text_empty)

section \<open>The header skip\<close>

text \<open>
  Claim C9. The header skip is the constant 1114, so a raw corpus of at most 1114 code
  points is dropped whole, and the cell returns one empty sentence whatever the corpus
  contained.
\<close>

theorem short_corpus_discarded:
  "header_skip = 1114 \<and> (length raw \<le> 1114 \<longrightarrow> list_of_list db raw = [[]])"
  by (simp add: list_of_list_def drop_header_short tokenize_text_empty) (simp add: header_skip_def)

theorem short_corpus_discarded_witness:
  "length (of_ascii ''Mrs. Jones met Mr. Smith. They talked!'') \<le> 1114 \<and>
   list_of_list latin1_ucd (of_ascii ''Mrs. Jones met Mr. Smith. They talked!'') = [[]]"
  using short_corpus_discarded [of "of_ascii ''Mrs. Jones met Mr. Smith. They talked!''" latin1_ucd]
  by (simp add: of_ascii_def)

section \<open>Typographic single quotes\<close>

text \<open>
  Claim C10. \<open>special\<close> holds the two typographic double quotation marks and nothing
  else; the right single quotation mark U+2019 is neither in it nor in
  \<open>string.punctuation\<close>. It has no case (the database maps it to itself), so a text such
  as \<open>don\<close>U+2019\<open>t\<close> behind the header comes out as one token that still contains it.
\<close>

theorem single_quote_survives:
  assumes "to_lower_full db 8217 = [8217]"
  shows "set special = {8220, 8221} \<and> 8217 \<notin> set punctuation \<and> 8217 \<notin> set special \<and>
         (\<exists>raw tok. tok \<in> set (concat (list_of_list db raw)) \<and> 8217 \<in> set tok)"
proof -
  have "list_of_list db (replicate 1114 120 @ [100, 111, 110, 8217, 116]) =
          [[[100, 111, 110, 8217, 116]]]"
    unfolding list_of_list_def drop_header_padded using assms by (simp add: run_defs)
  then have "[100, 111, 110, 8217, 116] \<in>
               set (concat (list_of_list db (replicate 1114 120 @ [100, 111, 110, 8217, 116])))"
    by simp
  moreover have "(8217::nat) \<in> set [100, 111, 110, 8217, 116]"
    by simp
  ultimately have "\<exists>raw tok. tok \<in> set (concat (list_of_list db raw)) \<and> 8217 \<in> set tok"
    by blast
  then show ?thesis
    by (simp add: special_def punctuation_def)
qed

theorem single_quote_survives_witness:
  "to_lower_full latin1_ucd 8217 = [8217] \<and>
   (\<exists>raw tok. tok \<in> set (concat (list_of_list latin1_ucd raw)) \<and> 8217 \<in> set tok)"
  using single_quote_survives [of latin1_ucd] by (simp add: latin1_ucd_def)

section \<open>Counting sentences\<close>

text \<open>
  \<open>re.split\<close> returns one piece more than the text has delimiters, and replacing the
  line breaks by spaces neither adds nor removes a delimiter.
\<close>

lemma length_re_split_from:
  "length (re_split_from cur s) = Suc (count_boundaries s)"
  by (induction s arbitrary: cur) (simp_all add: count_boundaries_def)

lemma str_replace_single:
  "str_replace s [a] [b] = map (\<lambda>c. if c = a then b else c) s"
proof (induction s)
  case Nil
  show ?case by (simp add: str_replace.simps)
next
  case (Cons c cs)
  show ?case
  proof (cases "c = a")
    case True
    then have "str_replace (c # cs) [a] [b] = [b] @ str_replace cs [a] [b]"
      by (subst str_replace.simps) simp
    with True Cons show ?thesis by simp
  next
    case False
    then have "str_replace (c # cs) [a] [b] = c # str_replace cs [a] [b]"
      by (subst str_replace.simps) simp
    with False Cons show ?thesis by simp
  qed
qed

lemma count_boundaries_replace_single:
  "\<not> sent_boundary_pattern a \<Longrightarrow> \<not> sent_boundary_pattern b \<Longrightarrow>
   count_boundaries (str_replace s [a] [b]) = count_boundaries s"
  unfolding str_replace_single count_boundaries_def by (induction s) auto

lemma count_boundaries_line_breaks:
  "count_boundaries (line_breaks s) = count_boundaries s"
  by (simp add: line_breaks_def count_boundaries_replace_single sent_boundary_pattern_def)

lemma length_tokenize_text:
  "length (tokenize_text db s) = Suc (count_boundaries (abbreviations s))"
  by (simp add: tokenize_text_def re_split_def length_re_split_from count_boundaries_line_breaks)

text \<open>
  Claim C6. The number of sentences the cell produces is at most the number of \<open>.\<close>,
  \<open>?\<close> and \<open>!\<close> in the text after abbreviation normalization plus one, and it is
  equal to that number when no two delimiters are adjacent. (By \<open>length_tokenize_text\<close>
  the two numbers are in fact always equal: an empty piece between adjacent delimiters is
  kept as an empty sentence.)
\<close>

theorem sentence_count:
  "length (list_of_list db raw) \<le> count_boundaries (abbreviations (drop header_skip raw)) + 1 \<and>
   (\<not> adjacent_boundaries (abbreviations (drop header_skip raw)) \<longrightarrow>
      length (list_of_list db raw) = count_boundaries (abbreviations (drop header_skip raw)) + 1)"
  by (simp add: list_of_list_def length_tokenize_text)

theorem sentence_count_witness:
  "\<not> adjacent_boundaries (abbreviations (drop header_skip (replicate 1114 120 @ of_ascii ''Mr. A went. Why?''))) \<and>
   length (list_of_list latin1_ucd (replicate 1114 120 @ of_ascii ''Mr. A went. Why?'')) = 
     count_boundaries (abbreviations (drop header_skip (replicate 1114 120 @ of_ascii ''Mr. A went. Why?''))) + 1
   \<and> count_boundaries (abbreviations (drop header_skip (replicate 1114 120 @ of_ascii ''Mr. A went. Why?''))) = 2"
  using sentence_count [of latin1_ucd "replicate 1114 120 @ of_ascii ''Mr. A went. Why?''"]
  unfolding drop_header_padded
  by (simp add: abbreviations_def of_ascii_def str_replace.simps sent_boundary_pattern_def count_boundaries_def)

section \<open>Abbreviation normalization\<close>

text \<open>
  A replacement whose pattern does not occur leaves the string as it is; a replacement by
  a shorter string never lengthens the string and shortens it when the pattern occurs.
\<close>

lemma str_replace_absent:
  "old \<noteq> [] \<Longrightarrow> \<not> str_contains s old \<Longrightarrow> str_replace s old new = s"
proof (induction s)
  case Nil
  then show ?case by (simp add: str_replace.simps)
next
  case (Cons c cs)
  then have "str_replace (c # cs) old new = c # str_replace cs old new"
    by (subst str_replace.simps) simp
  with Cons show ?case by simp
qed

lemma length_str_replace_le:
  "old \<noteq> [] \<Longrightarrow> length new \<le> length old \<Longrightarrow> length (str_replace s old new) \<le> length s"
proof (induction s old new rule: str_replace.induct)
  case (1 s old new)
  show ?case
  proof (cases "s = []")
    case True
    with 1 show ?thesis by (simp add: str_replace.simps)
  next
    case ne: False
    show ?thesis
    proof (cases "prefix old s")
      case True
      then have len: "length old \<le> length s" by (rule prefix_length_le)
      have "str_replace s old new = new @ str_replace (drop (length old) s) old new"
        using 1(3) ne True by (subst str_replace.simps) simp
      moreover have "length (str_replace (drop (length old) s) old new) \<le> length s - length old"
        using 1(1) [OF 1(3) ne True 1(3) 1(4)] by simp
      ultimately show ?thesis using len 1(4) by simp
    next
      case False
      have "str_replace s old new = hd s # str_replace (tl s) old new"
        using 1(3) ne False by (subst str_replace.simps) simp
      moreover have "length (str_replace (tl s) old new) \<le> length s - 1"
        using 1(2) [OF 1(3) ne False 1(3) 1(4)] by simp
      ultimately show ?thesis using ne by (cases s) simp_all
    qed
  qed
qed

lemma length_str_replace_less:
  "old \<noteq> [] \<Longrightarrow> length new < length old \<Longrightarrow> str_contains s old \<Longrightarrow>
   length (str_replace s old new) < length s"
proof (induction s)
  case Nil
  then show ?case by simp
next
  case (Cons c cs)
  show ?case
  proof (cases "prefix old (c # cs)")
    case True
    then have len: "length old \<le> length (c # cs)" by (rule prefix_length_le)
    have "str_replace (c # cs) old new = new @ str_replace (drop (length old) (c # cs)) old new"
      using Cons.prems(1) True by (subst str_replace.simps) simp
    moreover have "length (str_replace (drop (length old) (c # cs)) old new)
                     \<le> length (c # cs) - length old"
      using length_str_replace_le [of old new "drop (length old) (c # cs)"] Cons.prems by simp
    ultimately show ?thesis using len Cons.prems(2) by simp
  next
    case False
    with Cons.prems have "str_contains cs old" by simp
    then have "length (str_replace cs old new) < length cs"
      using Cons by simp
    moreover have "str_replace (c # cs) old new = c # str_replace cs old new"
      using Cons.prems(1) False by (subst str_replace.simps) simp
    ultimately show ?thesis by simp
  qed
qed

text \<open>
  Claim C4, as stated: the two replacements applied twice give the same as applied once.
  On \<open>Mr..\<close> the first application removes one period and leaves \<open>Mr.\<close>, which the
  second application shortens again to \<open>Mr\<close>.
\<close>

theorem abbreviations_twice_counterexample:
  "abbreviations (abbreviations (of_ascii ''Mr..'')) \<noteq> abbreviations (of_ascii ''Mr..'')"
  by (simp add: abbreviations_def of_ascii_def str_replace.simps)

text \<open>
  Claim C4, amended: abbreviation normalization applied twice gives the same as applied
  once exactly for the inputs whose normalized text contains neither \<open>Mrs.\<close> nor
  \<open>Mr.\<close> any more.
\<close>

theorem abbreviations_idempotent_iff:
  "abbreviations (abbreviations s) = abbreviations s \<longleftrightarrow>
     \<not> str_contains (abbreviations s) (of_ascii ''Mrs.'') \<and>
     \<not> str_contains (abbreviations s) (of_ascii ''Mr.'')"
proof -
  define t where "t = abbreviations s"
  define u where "u = str_replace t (of_ascii ''Mrs.'') (of_ascii ''Mrs'')"
  have ab: "abbreviations t = str_replace u (of_ascii ''Mr.'') (of_ascii ''Mr'')"
    by (simp add: abbreviations_def u_def)
  have u_le: "length u \<le> length t"
    unfolding u_def by (rule length_str_replace_le) (simp_all add: of_ascii_def)
  have ab_le: "length (abbreviations t) \<le> length u"
    unfolding ab by (rule length_str_replace_le) (simp_all add: of_ascii_def)
  have "abbreviations t = t \<longleftrightarrow>
          \<not> str_contains t (of_ascii ''Mrs.'') \<and> \<not> str_contains t (of_ascii ''Mr.'')"
  proof (cases "str_contains t (of_ascii ''Mrs.'')")
    case True
    then have "length u < length t"
      unfolding u_def by (intro length_str_replace_less) (simp_all add: of_ascii_def)
    with ab_le have "length (abbreviations t) < length t" by simp
    then have "abbreviations t \<noteq> t" by auto
    with True show ?thesis by simp
  next
    case no_mrs: False
    then have u: "u = t"
      unfolding u_def by (intro str_replace_absent) (simp_all add: of_ascii_def)
    show ?thesis
    proof (cases "str_contains t (of_ascii ''Mr.'')")
      case True
      then have "length (abbreviations t) < length t"
        unfolding ab u by (intro length_str_replace_less) (simp_all add: of_ascii_def)
      then have "abbreviations t \<noteq> t" by auto
      with True show ?thesis by simp
    next
      case False
      then have "abbreviations t = t"
        unfolding ab u by (intro str_replace_absent) (simp_all add: of_ascii_def)
      with no_mrs False show ?thesis by simp
    qed
  qed
  then show ?thesis by (simp add: t_def)
qed

theorem abbreviations_idempotent_iff_witness:
  "\<not> str_contains (abbreviations (of_ascii ''Mrs. Jones met Mr. Smith.'')) (of_ascii ''Mrs.'') \<and>
   \<not> str_contains (abbreviations (of_ascii ''Mrs. Jones met Mr. Smith.'')) (of_ascii ''Mr.'') \<and>
   abbreviations (abbreviations (of_ascii ''Mrs. Jones met Mr. Smith.'')) =
     abbreviations (of_ascii ''Mrs. Jones met Mr. Smith.'')"
  using abbreviations_idempotent_iff [of "of_ascii ''Mrs. Jones met Mr. Smith.''"]
  by (simp add: abbreviations_def of_ascii_def str_replace.simps)

section \<open>Tokens\<close>

text \<open>
  \<open>split\<close> on a token followed by nothing or by whitespace returns that token first;
  every token it returns is a non-empty run of non-whitespace code points of the string.
\<close>

lemma split_empty: "split [] = []"
  by (subst split.simps) simp

lemma split_skip_space:
  assumes "isspace c"
  shows "split (c # r) = split r"
proof -
  have "split (c # r) =
          (let rest = dropWhile isspace r
           in if rest = [] then []
              else takeWhile (\<lambda>c. \<not> isspace c) rest # split (dropWhile (\<lambda>c. \<not> isspace c) rest))"
    using assms by (subst split.simps) simp
  also have "\<dots> = split r"
    by (subst (2) split.simps) simp
  finally show ?thesis .
qed

lemma split_token_first:
  assumes "t \<noteq> []" and "\<forall>c\<in>set t. \<not> isspace c" and "r = [] \<or> isspace (hd r)"
  shows "split (t @ r) = t # split r"
proof -
  from assms(1,2) have d: "dropWhile isspace (t @ r) = t @ r"
    by (cases t) simp_all
  from assms(3) have tr: "takeWhile (\<lambda>c. \<not> isspace c) r = []"
    by (cases r) auto
  from assms(3) have dr: "dropWhile (\<lambda>c. \<not> isspace c) r = r"
    by (cases r) auto
  have tk: "takeWhile (\<lambda>c. \<not> isspace c) (t @ r) = t"
    using assms(2) tr by simp
  have dk: "dropWhile (\<lambda>c. \<not> isspace c) (t @ r) = r"
    using assms(2) dr by simp
  show ?thesis
    using assms(1) by (subst split.simps) (simp add: d tk dk)
qed

lemma split_token:
  assumes "tok \<in> set (split s)"
  shows "tok \<noteq> [] \<and> (\<forall>c\<in>set tok. \<not> isspace c \<and> c \<in> set s)"
  using assms
proof (induction s rule: split.induct)
  case (1 s)
  define rest where "rest = dropWhile isspace s"
  show ?case
  proof (cases "rest = []")
    case True
    then have "split s = []"
      unfolding rest_def by (subst split.simps) simp
    with 1(2) show ?thesis by simp
  next
    case False
    then have sp: "split s = takeWhile (\<lambda>c. \<not> isspace c) rest
                       # split (dropWhile (\<lambda>c. \<not> isspace c) rest)"
      unfolding rest_def by (subst split.simps) (simp add: Let_def)
    have sub: "set rest \<subseteq> set s"
      unfolding rest_def by (auto dest: set_dropWhileD)
    from False have hd: "\<not> isspace (hd rest)"
      unfolding rest_def by (rule hd_dropWhile)
    from 1(2) sp consider "tok = takeWhile (\<lambda>c. \<not> isspace c) rest"
      | "tok \<in> set (split (dropWhile (\<lambda>c. \<not> isspace c) rest))"
      by auto
    then show ?thesis
    proof cases
      case 1
      with False hd have "tok \<noteq> []"
        by (simp add: takeWhile_eq_Nil_iff)
      moreover have "\<forall>c\<in>set tok. \<not> isspace c \<and> c \<in> set s"
        using 1 sub by (auto dest: set_takeWhileD)
      ultimately show ?thesis by simp
    next
      case 2
      have "tok \<noteq> [] \<and> (\<forall>c\<in>set tok. \<not> isspace c \<and> c \<in> set (dropWhile (\<lambda>c. \<not> isspace c) rest))"
        using "1.IH" [OF rest_def False 2] .
      with sub show ?thesis
        by (auto dest: set_dropWhileD)
    qed
  qed
qed

lemma split_join:
  assumes "sep = [32]" and "\<forall>t\<in>set ts. t \<noteq> [] \<and> (\<forall>c\<in>set t. \<not> isspace c)"
  shows "split (join sep ts) = ts"
  using assms
proof (induction sep ts rule: join.induct)
  case (1 sep)
  show ?case by (simp add: split_empty)
next
  case (2 sep x)
  then have "split (x @ []) = x # split []"
    by (intro split_token_first) simp_all
  then show ?case by (simp add: split_empty)
next
  case (3 sep x y ys)
  have sp: "isspace 32" by (simp add: isspace_def)
  have "split (x @ (32 # join sep (y # ys))) = x # split (32 # join sep (y # ys))"
    using 3(3) sp by (intro split_token_first) simp_all
  also have "split (32 # join sep (y # ys)) = split (join sep (y # ys))"
    using sp by (rule split_skip_space)
  also have "\<dots> = y # ys"
    using 3 by simp
  finally show ?case using 3(2) by simp
qed

lemma tokens_of_list_of_list:
  assumes "tok \<in> set (concat (list_of_list db raw))"
  shows "\<exists>s. tok \<in> set (split s)"
  using assms by (auto simp: list_of_list_def tokenize_text_def)

text \<open>
  Claim C5. Joining all tokens of all sentences with single spaces and splitting the
  result on whitespace gives back the same sequence of tokens.
\<close>

theorem tokens_round_trip:
  "split (join [32] (concat (list_of_list db raw))) = concat (list_of_list db raw)"
proof (rule split_join)
  show "[32] = [32::nat]" by simp
  show "\<forall>t\<in>set (concat (list_of_list db raw)). t \<noteq> [] \<and> (\<forall>c\<in>set t. \<not> isspace c)"
  proof
    fix t assume "t \<in> set (concat (list_of_list db raw))"
    then obtain s where "t \<in> set (split s)"
      using tokens_of_list_of_list by blast
    then show "t \<noteq> [] \<and> (\<forall>c\<in>set t. \<not> isspace c)"
      using split_token by blast
  qed
qed

section \<open>What a token is made of\<close>

text \<open>
  The code points of a lowered string are small sigmas or come from the lowercase mapping
  of a code point of the string; a string of code points fixed by lowercasing is left
  unchanged by \<open>str.lower\<close>.
\<close>

lemma lower_from_chars:
  "d \<in> set (lower_from db lhs s) \<Longrightarrow>
   d = 962 \<or> d = 963 \<or> (\<exists>c\<in>set s. c \<noteq> 931 \<and> d \<in> set (lower_full db c))"
  by (induction s arbitrary: lhs)
     (auto simp: handle_capital_sigma_def Let_def split: if_splits)

lemma lower_from_fixed:
  "\<forall>d\<in>set t. lower_fixed db d \<Longrightarrow> lower_from db lhs t = t"
  by (induction t arbitrary: lhs) (simp_all add: lower_fixed_def)

lemma ascii_lower_clean:
  assumes "c < 128" and "c \<notin> set punctuation" and "d \<in> set (lower_full db c)"
  shows "lower_fixed db d \<and> d \<notin> set punctuation \<and> d \<notin> set special"
proof -
  from assms(1,3) have d: "d = ascii_lower c"
    by (simp add: lower_full_def)
  have "d < 128"
    using assms(1) unfolding d ascii_lower_def by (simp split: if_splits) 
  have "ascii_lower d = d"
    unfolding d ascii_lower_def by simp
  with \<open>d < 128\<close> have "lower_fixed db d"
    by (simp add: lower_fixed_def lower_full_def)
  moreover have "d \<notin> set punctuation"
    using assms(2) unfolding d ascii_lower_def punctuation_def by (simp split: if_splits)
  moreover have "d \<notin> set special"
    using \<open>d < 128\<close> by (auto simp: special_def)
  ultimately show ?thesis by simp
qed




lemma lowered_char_clean:
  assumes ok: "case_table_ok db"
    and c: "c \<notin> set punctuation" "c \<notin> set special" "c \<noteq> 931"
    and d: "d \<in> set (lower_full db c)"
  shows "lower_fixed db d \<and> d \<notin> set punctuation \<and> d \<notin> set special"
proof (cases "c < 128")
  case True
  then show ?thesis using c(1) d by (rule ascii_lower_clean)
next
  case False
  with d have "d \<in> set (to_lower_full db c)"
    by (simp add: lower_full_def)
  moreover from False have "128 \<le> c"
    by simp
  ultimately show ?thesis
    using ok c(2,3) unfolding case_table_ok_def by blast
qed



lemma sigma_clean:
  assumes "case_table_ok db" and "d = 962 \<or> d = 963"
  shows "lower_fixed db d \<and> d \<notin> set punctuation \<and> d \<notin> set special"
proof -
  from assms(1) have "to_lower_full db 962 = [962]" and "to_lower_full db 963 = [963]"
    by (simp_all add: case_table_ok_def)
  with assms(2) have "lower_fixed db d"
    by (auto simp: lower_fixed_def lower_full_def)
  moreover from assms(2) have "d \<notin> set punctuation"
    by (auto simp: punctuation_def)
  moreover from assms(2) have "d \<notin> set special"
    by (auto simp: special_def)
  ultimately show ?thesis by simp
qed


lemma lowered_sentence_clean:
  assumes ok: "case_table_ok db"
    and d: "d \<in> set (str_lower db (remove_punctuation s))"
  shows "lower_fixed db d \<and> d \<notin> set punctuation \<and> d \<notin> set special"
proof -
  from d consider "d = 962 \<or> d = 963"
    | c where "c \<in> set (remove_punctuation s)" "c \<noteq> 931" "d \<in> set (lower_full db c)"
    unfolding str_lower_def using lower_from_chars by blast
  then show ?thesis
  proof cases
    case 1
    with ok show ?thesis by (rule sigma_clean)
  next
    case 2
    from 2(1) have "c \<notin> set punctuation" "c \<notin> set special"
      by (simp_all add: remove_punctuation_def)
    then show ?thesis using ok 2(2,3) lowered_char_clean by blast
  qed
qed



lemma set_strip: "set (strip s) \<subseteq> set s"
  by (auto simp: strip_def dest!: set_dropWhileD)



lemma sentence_of_list_of_list:
  assumes "sent \<in> set (list_of_list db raw)"
  shows "\<exists>s. sent = split (strip (str_lower db (remove_punctuation s)))"
  using assms by (auto simp: list_of_list_def tokenize_text_def)




text \<open>
  Claim C3. For every raw text, every token of every sentence is non-empty, is lowercase
  (\<open>str.lower\<close> leaves it unchanged) and contains no code point of
  \<open>string.punctuation\<close> or of \<open>special\<close>, for every character database with the
  properties \<open>case_table_ok\<close>.
\<close>

theorem tokens_clean:
  assumes "case_table_ok db" and "sent \<in> set (list_of_list db raw)" and "tok \<in> set sent"
  shows "tok \<noteq> [] \<and> str_lower db tok = tok \<and>
         (\<forall>ch\<in>set tok. ch \<notin> set punctuation \<and> ch \<notin> set special)"
proof -
  from assms(2) obtain s where sent: "sent = split (strip (str_lower db (remove_punctuation s)))"
    using sentence_of_list_of_list by blast
  with assms(3) have tok: "tok \<noteq> []"
    and sub: "set tok \<subseteq> set (strip (str_lower db (remove_punctuation s)))"
    using split_token by blast+
  have clean: "lower_fixed db d \<and> d \<notin> set punctuation \<and> d \<notin> set special" if "d \<in> set tok" for d
  proof -
    from that sub set_strip have "d \<in> set (str_lower db (remove_punctuation s))"
      by blast
    with assms(1) show ?thesis by (rule lowered_sentence_clean)
  qed
  then have "str_lower db tok = tok"
    unfolding str_lower_def by (intro lower_from_fixed) simp
  with tok clean show ?thesis by simp
qed

lemma latin1_ucd_ok: "case_table_ok latin1_ucd"
  unfolding case_table_ok_def
proof (intro conjI allI impI ballI)
  fix c d
  assume c: "128 \<le> c \<and> c \<noteq> 931 \<and> c \<notin> set special"
    and d: "d \<in> set (to_lower_full latin1_ucd c)"
  show "lower_fixed latin1_ucd d"
    using c d by (auto simp: latin1_ucd_def lower_fixed_def lower_full_def split: if_splits)
  show "d \<notin> set punctuation"
    using c d by (auto simp: latin1_ucd_def punctuation_def split: if_splits)
  show "d \<notin> set special"
    using c d by (auto simp: latin1_ucd_def special_def split: if_splits)
qed (simp_all add: latin1_ucd_def)

theorem tokens_clean_witness:
  "case_table_ok latin1_ucd \<and>
   [[233, 116, 233]] \<in> set (list_of_list latin1_ucd
       (replicate 1114 120 @ [8220, 201, 116, 233, 33, 8221])) \<and>
   [233, 116, 233] \<in> set [[233, 116, 233]] \<and>
   [233, 116, 233] \<noteq> [] \<and> str_lower latin1_ucd [233, 116, 233] = [233, 116, 233] \<and>
   233 \<notin> set punctuation \<and> 233 \<notin> set special \<and> 116 \<notin> set punctuation \<and> 116 \<notin> set special"
proof -
  have run: "list_of_list latin1_ucd (replicate 1114 120 @ [8220, 201, 116, 233, 33, 8221]) =
               [[[233, 116, 233]], []]"
    unfolding list_of_list_def drop_header_padded by (simp add: run_defs latin1_ucd_def)
  have sent: "[[233, 116, 233]] \<in> set (list_of_list latin1_ucd
                (replicate 1114 120 @ [8220, 201, 116, 233, 33, 8221]))"
    unfolding run by simp
  have tok: "[233, 116, 233] \<in> set [[233, 116, 233::nat]]"
    by simp
  show ?thesis
    using latin1_ucd_ok sent tok tokens_clean [OF latin1_ucd_ok sent tok] by simp
qed

end
